theory Spec2Isabelle
  imports Main "HOL-Library.Word"
begin

unbundle bit_operations_syntax

section \<open>Bytes and big integers\<close>

text \<open>
  A Go \<^verbatim>\<open>[]byte\<close> is a list of 8-bit words; a \<^verbatim>\<open>*big.Int\<close> is an \<^typ>\<open>int\<close>.
  The operations of \<^verbatim>\<open>math/big\<close> that the package calls are written out here after
  their documentation: \<^verbatim>\<open>Bytes\<close> is the big-endian encoding of the absolute value with
  no leading zero byte (empty for 0), \<^verbatim>\<open>SetBytes\<close> reads a big-endian unsigned
  integer, \<^verbatim>\<open>Bit\<close> is a bit of the two's complement representation.
\<close>

type_synonym byte = "8 word"

fun nat_bytes :: "nat \<Rightarrow> byte list" where
  "nat_bytes n = (if n = 0 then [] else nat_bytes (n div 256) @ [of_nat (n mod 256)])"

declare nat_bytes.simps [simp del]

definition Bytes :: "int \<Rightarrow> byte list" where
  "Bytes x = nat_bytes (nat \<bar>x\<bar>)"

definition SetBytes :: "byte list \<Rightarrow> int" where
  "SetBytes bs = foldl (\<lambda>acc b. acc * 256 + uint b) 0 bs"

definition Bit :: "int \<Rightarrow> nat \<Rightarrow> nat" where
  "Bit x i = (if bit x i then 1 else 0)"

text \<open>The builtin \<^verbatim>\<open>copy(dst, src)\<close>: the first \<open>min (len dst) (len src)\<close> elements
  of \<open>dst\<close> are overwritten, the rest of \<open>dst\<close> stays.\<close>

definition copy_bytes :: "byte list \<Rightarrow> byte list \<Rightarrow> byte list" where
  "copy_bytes dst src = take (length dst) src @ drop (length src) dst"

section \<open>Curve parameters\<close>

text \<open>The values returned by \<^verbatim>\<open>elliptic.P256().Params()\<close>.\<close>

definition P :: int where
  "P = 115792089210356248762697446949407573530086143415290314195533631308867097853951"

definition N :: int where
  "N = 115792089210356248762697446949407573529996955224135760342422259061068512044369"

definition B :: int where
  "B = 41058363725152142129326129780047268409114441015993725554835256314039467401291"

definition BitSize :: nat where
  "BitSize = 256"

record PublicKey =
  X :: int
  Y :: int

record PrivateKey = PublicKey +
  D :: int

section \<open>Low-S\<close>

definition IsLowS :: "int \<Rightarrow> bool" where
  "IsLowS s = (\<not> (s > drop_bit 1 N))"

text \<open>\<^verbatim>\<open>ToLowS(k, s)\<close>; \<open>kN\<close> is \<^verbatim>\<open>k.Params().N\<close>, the order of the curve of the key \<open>k\<close>,
  which is all the function reads of the key. The test is \<^verbatim>\<open>IsLowS\<close>, against the order of
  P-256 whatever the key. The source overwrites \<open>s\<close> with \<open>kN - s\<close> and returns it; the
  model returns the value.\<close>

definition ToLowS :: "int \<Rightarrow> int \<Rightarrow> int" where
  "ToLowS kN s = (let lowS = IsLowS s in if \<not> lowS then kN - s else s)"

section \<open>Private key serialization\<close>

text \<open>The loop of \<^verbatim>\<open>paddedAppend\<close>: \<open>i\<close> runs from 0 while \<open>i < int(size) - len(src)\<close>,
  appending one zero byte each round.\<close>

function paddedAppend_loop :: "int \<Rightarrow> int \<Rightarrow> byte list \<Rightarrow> byte list" where
  "paddedAppend_loop i n dst =
     (if i < n then paddedAppend_loop (i + 1) n (dst @ [0]) else dst)"
  by pat_completeness auto
termination
  by (relation "measure (\<lambda>(i, n, dst). nat (n - i))") auto

declare paddedAppend_loop.simps [simp del]

definition paddedAppend :: "nat \<Rightarrow> byte list \<Rightarrow> byte list \<Rightarrow> byte list" where
  "paddedAppend sz dst src =
     paddedAppend_loop 0 (int sz - int (length src)) dst @ src"

text \<open>Modelled from the spec: the constant \<^verbatim>\<open>privateKeyECDSALength\<close> is declared in
  another file of the package; the spec gives the private key a fixed width of 32 bytes.\<close>

definition privateKeyECDSALength :: nat where
  "privateKeyECDSALength = 32"

definition SerializePrivateKey :: "PrivateKey \<Rightarrow> byte list" where
  "SerializePrivateKey p = (let b = [] in paddedAppend privateKeyECDSALength b (Bytes (D p)))"

section \<open>Results and errors\<close>

text \<open>One constructor for each error the package builds with \<^verbatim>\<open>errors.New\<close> or
  \<^verbatim>\<open>fmt.Errorf\<close>, in the order of the source.\<close>

datatype asn1_error =
    SequenceTruncated | TruncatedTagOrLength | LongFormTag | IndefiniteLength
  | LengthTooLarge | SuperfluousLeadingZeros | NonMinimalLength | TagsDontMatch
  | DataTruncated | EmptyInteger | NotMinimallyEncoded

datatype error =
    ErrUnmarshal asn1_error    \<comment> \<open>failed unmashalling signature [..]\<close>
  | ErrRNil                    \<comment> \<open>invalid signature, R must be different from nil\<close>
  | ErrSNil                    \<comment> \<open>invalid signature, S must be different from nil\<close>
  | ErrRNotPositive            \<comment> \<open>invalid signature, R must be larger than zero\<close>
  | ErrSNotPositive            \<comment> \<open>invalid signature, S must be larger than zero\<close>
  | ErrPubKeyEmpty             \<comment> \<open>pubkey string is empty\<close>
  | ErrXGeP                    \<comment> \<open>pubkey X parameter is >= to P\<close>
  | ErrYGeP                    \<comment> \<open>pubkey Y parameter is >= to P\<close>
  | ErrNotOnCurve              \<comment> \<open>pubkey isn't on secp256k1 curve\<close>
  | ErrByteLen                 \<comment> \<open>parsePubKeyCompressed byteLen error\<close>
  | ErrCompressedForm          \<comment> \<open>parsePubKeyCompressed compressed form error\<close>
  | ErrXData                   \<comment> \<open>parsePubKeyCompressed x data error\<close>
  | ErrYData                   \<comment> \<open>parsePubKeyCompressed y data error\<close>
  | ErrIsOnCurve               \<comment> \<open>parsePubKeyCompressed IsOnCurve error\<close>

text \<open>The error kinds of the specification, and the kind it gives each error: a failed
  signature decoding is a \<open>DecodeError\<close>, the empty key an \<open>EmptyInput\<close>, a wrong length or
  tag byte of a compressed key an \<open>InvalidEncoding\<close>, a coordinate that is not below \<open>P\<close> or
  a point off the curve an \<open>InvalidKey\<close>, a missing square root a \<open>NoSquareRoot\<close>.\<close>

datatype error_kind =
  DecodeError | EmptyInput | InvalidEncoding | InvalidKey | NoSquareRoot | Overflow

fun kind_of :: "error \<Rightarrow> error_kind" where
  "kind_of (ErrUnmarshal e) = DecodeError"
| "kind_of ErrRNil = DecodeError"
| "kind_of ErrSNil = DecodeError"
| "kind_of ErrRNotPositive = DecodeError"
| "kind_of ErrSNotPositive = DecodeError"
| "kind_of ErrPubKeyEmpty = EmptyInput"
| "kind_of ErrXGeP = InvalidKey"
| "kind_of ErrYGeP = InvalidKey"
| "kind_of ErrNotOnCurve = InvalidKey"
| "kind_of ErrByteLen = InvalidEncoding"
| "kind_of ErrCompressedForm = InvalidEncoding"
| "kind_of ErrXData = InvalidKey"
| "kind_of ErrYData = NoSquareRoot"
| "kind_of ErrIsOnCurve = InvalidKey"

text \<open>A call either returns a value or stops the goroutine with a run-time panic.\<close>

datatype 'a go = Panics | Returns 'a

section \<open>The curve equation and the modular square root\<close>

text \<open>\<^verbatim>\<open>big.Int.Mod(x, y)\<close> is the Euclidean modulus: the result lies in \<open>[0, \<bar>y\<bar>)\<close>, and
  a zero \<open>y\<close> is a division by zero, a run-time panic.\<close>

definition big_Mod :: "int \<Rightarrow> int \<Rightarrow> int go" where
  "big_Mod x y = (if y = 0 then Panics else Returns (x mod \<bar>y\<bar>))"

text \<open>\<^verbatim>\<open>polynomial\<close> of the source, statement by statement; \<^verbatim>\<open>Lsh(x, 1)\<close> is a shift
  by one bit.\<close>

definition polynomial :: "int \<Rightarrow> int \<Rightarrow> int \<Rightarrow> int go" where
  "polynomial b p x =
     (let x3 = x * x;
          x3 = x3 * x;
          threeX = push_bit 1 x;
          threeX = threeX + x;
          x3 = x3 - threeX;
          x3 = x3 + b
      in big_Mod x3 p)"

text \<open>\<^verbatim>\<open>IsOnCurve\<close> of \<^verbatim>\<open>elliptic.P256()\<close>: both coordinates are in \<open>[0, P)\<close> and
  satisfy \<open>y\<^sup>2 = x\<^sup>3 - 3x + B\<close> modulo \<open>P\<close>.\<close>

definition IsOnCurve :: "int \<Rightarrow> int \<Rightarrow> bool" where
  "IsOnCurve x y =
     (0 \<le> x \<and> x < P \<and> 0 \<le> y \<and> y < P \<and> (y * y) mod P = (x * x * x - 3 * x + B) mod P)"

text \<open>\<^verbatim>\<open>big.Int.Exp(x, e, m)\<close> for \<open>0 \<le> e\<close> and \<open>0 < m\<close> is \<open>x ^ e mod m\<close>, computed by
  repeated squaring.\<close>

fun Exp_nat :: "int \<Rightarrow> nat \<Rightarrow> int \<Rightarrow> int" where
  "Exp_nat x e m =
     (if e = 0 then 1 mod m
      else let h = Exp_nat x (e div 2) m; q = (h * h) mod m
           in if odd e then (q * x) mod m else q)"

declare Exp_nat.simps [simp del]

definition Exp :: "int \<Rightarrow> int \<Rightarrow> int \<Rightarrow> int" where
  "Exp x e m = Exp_nat x (nat e) m"

fun trailingZeroBits :: "nat \<Rightarrow> nat" where
  "trailingZeroBits n = (if n = 0 \<or> odd n then 0 else Suc (trailingZeroBits (n div 2)))"

declare trailingZeroBits.simps [simp del]

text \<open>The loop of \<^verbatim>\<open>big.Jacobi\<close> on the numerator \<open>a\<close>, the denominator \<open>b\<close> and the
  sign \<open>j\<close> collected so far. In \<^verbatim>\<open>math/big\<close> the denominator is odd and positive on
  entry and stays so.\<close>

function Jacobi_loop :: "int \<Rightarrow> int \<Rightarrow> int \<Rightarrow> int" where
  "Jacobi_loop a b j =
     (if b = 1 then j
      else if a = 0 then 0
      else let a = a mod b in
        if a = 0 then 0
        else let s = trailingZeroBits (nat \<bar>a\<bar>);
                 j = (if odd s then
                        (let bmod8 = nat \<bar>b\<bar> mod 8 in if bmod8 = 3 \<or> bmod8 = 5 then - j else j)
                      else j);
                 c = drop_bit s a;
                 j = (if nat \<bar>b\<bar> mod 4 = 3 \<and> nat \<bar>c\<bar> mod 4 = 3 then - j else j)
             in Jacobi_loop b c j)"
  by pat_completeness auto
termination
proof (relation "measure (\<lambda>(a, b, j). if a = 0 then 0 else if b = 0 then 1 else 2 + nat \<bar>b\<bar>)",
    goal_cases)
  case 1
  show ?case by simp
next
  case (2 a b j a' s j' c j'')
  have le: "\<bar>drop_bit s a'\<bar> \<le> \<bar>a'\<bar>" for s :: nat and a' :: int
  proof (cases "0 \<le> a'")
    case True
    have "a' div 2 ^ s \<le> a'"
      using True
      by (metis div_0 div_self int_div_le_self int_one_le_iff_zero_less
          nonneg1_imp_zdiv_pos_iff order_refl)
    moreover have "0 \<le> a' div 2 ^ s" using True by (simp add: pos_imp_zdiv_nonneg_iff)
    ultimately show ?thesis using True by (simp add: drop_bit_eq_div)
  next
    case False
    then have neg: "a' < 0" by simp
    have "a' div 2 ^ s < 0" using neg by (simp add: pos_imp_zdiv_neg_iff)
    moreover have "a' \<le> a' div 2 ^ s"
      using neg
      by (metis zdiv_mono2_neg div_by_1 zero_less_power int_div_le_self
          nonneg1_imp_zdiv_pos_iff zero_less_numeral div_by_0)
    ultimately show ?thesis using neg by (simp add: drop_bit_eq_div)
  qed
  show ?case
  proof (cases "b = 0")
    case True
    with 2(2) show ?thesis by simp
  next
    case False
    then have "\<bar>a mod b\<bar> < \<bar>b\<bar>" by (rule abs_mod_less)
    with le [of s a'] 2(3) 2(7) have "\<bar>c\<bar> < \<bar>b\<bar>" by simp
    with False 2(2) show ?thesis by simp
  qed
qed

declare Jacobi_loop.simps [simp del]

text \<open>\<^verbatim>\<open>big.Jacobi(x, y)\<close> for an odd \<open>y\<close> (it panics on an even one; \<open>P\<close> is odd): the sign
  of a negative \<open>y\<close> is dropped, after it has been counted when \<open>x\<close> is negative too.\<close>

definition Jacobi :: "int \<Rightarrow> int \<Rightarrow> int" where
  "Jacobi x y = Jacobi_loop x \<bar>y\<bar> (if y < 0 \<and> x < 0 then - 1 else 1)"

definition modSqrt3Mod4Prime :: "int \<Rightarrow> int \<Rightarrow> int" where
  "modSqrt3Mod4Prime x p = (let e = p + 1; e = drop_bit 2 e in Exp x e p)"

text \<open>\<^verbatim>\<open>big.Int.ModSqrt(x, p)\<close> at the modulus \<open>P\<close>: no root when the Jacobi symbol is \<open>-1\<close>,
  the root 0 when it is 0; otherwise \<open>x\<close> is reduced into \<open>[0, P)\<close> and, \<open>P mod 4\<close> being 3,
  the root is \<open>x ^ ((P + 1) / 4) mod P\<close>. The branches of \<^verbatim>\<open>ModSqrt\<close> for the other
  residues of the modulus are never taken with \<open>P\<close>.\<close>

definition ModSqrtP :: "int \<Rightarrow> int option" where
  "ModSqrtP x =
     (let j = Jacobi x P in
      if j = - 1 then None
      else if j = 0 then Some 0
      else let x = (if x < 0 \<or> x \<ge> P then x mod P else x)
           in Some (modSqrt3Mod4Prime x P))"

section \<open>Public keys\<close>

text \<open>\<^verbatim>\<open>parsePubKey\<close>. The slice expressions \<^verbatim>\<open>pubKeyStr[1:33]\<close> and
  \<^verbatim>\<open>pubKeyStr[33:]\<close> need 33 bytes: on a shorter, non-empty input the second one is out
  of range whatever the capacity, and the run-time panics.\<close>

definition parsePubKey :: "byte list \<Rightarrow> (error + PublicKey) go" where
  "parsePubKey pubKeyStr =
     (if length pubKeyStr = 0 then Returns (Inl ErrPubKeyEmpty)
      else if length pubKeyStr < 33 then Panics
      else let x = SetBytes (take 32 (drop 1 pubKeyStr));
               y = SetBytes (drop 33 pubKeyStr)
           in if x \<ge> P then Returns (Inl ErrXGeP)
              else if y \<ge> P then Returns (Inl ErrYGeP)
              else if \<not> IsOnCurve x y then Returns (Inl ErrNotOnCurve)
              else Returns (Inr \<lparr>X = x, Y = y\<rparr>))"

definition SerializePublicKeyCompressed :: "PublicKey \<Rightarrow> byte list" where
  "SerializePublicKeyCompressed p =
     (let byteLen = drop_bit 3 (BitSize + 7);
          compressed = replicate (1 + byteLen) (0 :: byte);
          compressed = compressed[0 := of_nat (Bit (Y p) 0) OR 2];
          xBytes = Bytes (X p)
      in take 1 compressed @ copy_bytes (drop 1 compressed) xBytes)"

text \<open>\<^verbatim>\<open>parsePubKeyCompressed\<close>. A panic of \<^verbatim>\<open>Mod\<close>, in \<^verbatim>\<open>polynomial\<close> or in the
  negation of the root, would end the call; with the modulus \<open>P\<close> there is none.\<close>

definition parsePubKeyCompressed :: "byte list \<Rightarrow> (error + PublicKey) go" where
  "parsePubKeyCompressed data =
     (let byteLen = (BitSize + 7) div 8 in
      if length data \<noteq> 1 + byteLen then Returns (Inl ErrByteLen)
      else if data ! 0 \<noteq> 2 \<and> data ! 0 \<noteq> 3 then Returns (Inl ErrCompressedForm)
      else let p = P; x = SetBytes (drop 1 data) in
        if x \<ge> p then Returns (Inl ErrXData)
        else case polynomial B P x of
               Panics \<Rightarrow> Panics
             | Returns y \<Rightarrow>
                 (case ModSqrtP y of
                    None \<Rightarrow> Returns (Inl ErrYData)
                  | Some y \<Rightarrow>
                      (case (if (of_nat (Bit y 0) :: byte) \<noteq> data ! 0 AND 1
                             then big_Mod (- y) p else Returns y) of
                         Panics \<Rightarrow> Panics
                       | Returns y \<Rightarrow>
                           if \<not> IsOnCurve x y then Returns (Inl ErrIsOnCurve)
                           else Returns (Inr \<lparr>X = x, Y = y\<rparr>))))"

text \<open>\<^verbatim>\<open>SerializePublicKey\<close>; \<^verbatim>\<open>publicKeyECDSALength\<close> is only the capacity of the
  buffer.\<close>

definition SerializePublicKey :: "PublicKey \<Rightarrow> byte list" where
  "SerializePublicKey p =
     (let b = [];
          b = b @ [4];
          b = paddedAppend 32 b (Bytes (X p))
      in paddedAppend 32 b (Bytes (Y p)))"

section \<open>Two points of the curve\<close>

text \<open>A point whose \<open>X\<close> has one significant byte and one whose \<open>X\<close> has five.\<close>

definition Q5 :: PublicKey where
  "Q5 = \<lparr>X = 5, Y = 31468013646237722594854082025316614106172411895747863909393730389177298123724\<rparr>"

definition Q1 :: PublicKey where
  "Q1 = \<lparr>X = 1099511627521, Y = 60758091479224210301425915298640684590409600416979635974619739717339903598131\<rparr>"

section \<open>The signature codec\<close>

text \<open>The struct \<^verbatim>\<open>signatureECDSA\<close> is declared in another file of the package: two
  \<^verbatim>\<open>*big.Int\<close> fields \<open>R\<close> and \<open>S\<close>, either of which can be \<^verbatim>\<open>nil\<close>.\<close>

record signatureECDSA =
  R :: "int option"
  S :: "int option"

subsection \<open>Encoding: \<^verbatim>\<open>asn1.Marshal\<close>\<close>

text \<open>\<^verbatim>\<open>makeBigInt\<close>: the content bytes of an INTEGER, the shortest two's complement
  form. A \<^verbatim>\<open>nil\<close> pointer is an error.\<close>

definition makeBigInt :: "int option \<Rightarrow> asn1_error + byte list" where
  "makeBigInt n =
     (case n of
        None \<Rightarrow> Inl EmptyInteger
      | Some n \<Rightarrow>
          if sgn n < 0 then
            let nMinus1 = - n;
                nMinus1 = nMinus1 - 1;
                bytes = Bytes nMinus1;
                bytes = map (\<lambda>b. b XOR 0xff) bytes
            in if length bytes = 0 \<or> hd bytes AND 0x80 = 0 then Inr (0xff # bytes)
               else Inr bytes
          else if sgn n = 0 then Inr [0x00]
          else
            let bytes = Bytes n
            in if length bytes > 0 \<and> hd bytes AND 0x80 \<noteq> 0 then Inr (0x00 # bytes)
               else Inr bytes)"

record tagAndLength =
  t_class :: nat
  t_tag :: nat
  t_length :: nat
  t_isCompound :: bool

text \<open>\<^verbatim>\<open>appendTagAndLength\<close> for a tag number below 31, as SEQUENCE (16) and INTEGER (2)
  are: one identifier byte, then the length, in one byte when it is below 128 and
  otherwise as the count of its bytes, with the top bit set, followed by its big-endian
  bytes.\<close>

definition appendTagAndLength :: "byte list \<Rightarrow> tagAndLength \<Rightarrow> byte list" where
  "appendTagAndLength dst t =
     (let b = push_bit 6 (of_nat (t_class t) :: byte);
          b = (if t_isCompound t then b OR 0x20 else b);
          b = b OR of_nat (t_tag t);
          dst = dst @ [b]
      in if t_length t \<ge> 128 then
           let l = length (nat_bytes (t_length t));
               dst = dst @ [0x80 OR of_nat l]
           in dst @ nat_bytes (t_length t)
         else dst @ [of_nat (t_length t)])"

definition marshalBigInt :: "int option \<Rightarrow> asn1_error + byte list" where
  "marshalBigInt n =
     (case makeBigInt n of
        Inl e \<Rightarrow> Inl e
      | Inr body \<Rightarrow>
          Inr (appendTagAndLength []
                 \<lparr>t_class = 0, t_tag = 2, t_length = length body, t_isCompound = False\<rparr>
               @ body))"

text \<open>\<^verbatim>\<open>asn1.Marshal\<close> of a \<^verbatim>\<open>signatureECDSA\<close>: a SEQUENCE of the two INTEGERs.\<close>

definition Marshal :: "signatureECDSA \<Rightarrow> asn1_error + byte list" where
  "Marshal sig =
     (case marshalBigInt (R sig) of
        Inl e \<Rightarrow> Inl e
      | Inr r \<Rightarrow>
          (case marshalBigInt (S sig) of
             Inl e \<Rightarrow> Inl e
           | Inr s \<Rightarrow>
               let body = r @ s
               in Inr (appendTagAndLength []
                         \<lparr>t_class = 0, t_tag = 16, t_length = length body, t_isCompound = True\<rparr>
                       @ body)))"

definition MarshalECDSASignature :: "int option \<Rightarrow> int option \<Rightarrow> asn1_error + byte list" where
  "MarshalECDSASignature r s = Marshal \<lparr>R = r, S = s\<rparr>"

subsection \<open>Decoding: \<^verbatim>\<open>asn1.Unmarshal\<close>\<close>

text \<open>The parsers take the bytes from the current offset on and return the bytes that
  follow what they have read. The loop over the bytes of a long-form length refuses a
  length that has reached \<open>2 ^ 23\<close> before the next shift, and a leading zero byte.\<close>

fun parseLength_loop :: "nat \<Rightarrow> nat \<Rightarrow> byte list \<Rightarrow> asn1_error + (nat \<times> byte list)" where
  "parseLength_loop 0 len bytes = Inr (len, bytes)"
| "parseLength_loop (Suc n) len [] = Inl TruncatedTagOrLength"
| "parseLength_loop (Suc n) len (b # bytes) =
     (if len \<ge> 2 ^ 23 then Inl LengthTooLarge
      else let len = push_bit 8 len;
               len = len + unat b
           in if len = 0 then Inl SuperfluousLeadingZeros
              else parseLength_loop n len bytes)"

definition parseLength :: "byte list \<Rightarrow> asn1_error + (nat \<times> byte list)" where
  "parseLength bytes =
     (case bytes of
        [] \<Rightarrow> Inl TruncatedTagOrLength
      | b # bytes \<Rightarrow>
          if b AND 0x80 = 0 then Inr (unat (b AND 0x7f), bytes)
          else
            let numBytes = unat (b AND 0x7f)
            in if numBytes = 0 then Inl IndefiniteLength
               else (case parseLength_loop numBytes 0 bytes of
                       Inl e \<Rightarrow> Inl e
                     | Inr (len, bytes) \<Rightarrow>
                         if len < 0x80 then Inl NonMinimalLength else Inr (len, bytes)))"

text \<open>\<^verbatim>\<open>parseTagAndLength\<close>. A tag number in the long form is at least 31, so it matches
  neither SEQUENCE nor INTEGER and \<^verbatim>\<open>Unmarshal\<close> fails on every path through it; the
  model fails at once.\<close>

definition parseTagAndLength :: "byte list \<Rightarrow> asn1_error + (tagAndLength \<times> byte list)" where
  "parseTagAndLength bytes =
     (case bytes of
        [] \<Rightarrow> Inl TruncatedTagOrLength
      | b # bytes \<Rightarrow>
          let cls = unat (drop_bit 6 b);
              isCompound = (b AND 0x20 = 0x20);
              tag = unat (b AND 0x1f)
          in if tag = 0x1f then Inl LongFormTag
             else (case parseLength bytes of
                     Inl e \<Rightarrow> Inl e
                   | Inr (len, bytes) \<Rightarrow>
                       Inr (\<lparr>t_class = cls, t_tag = tag, t_length = len,
                             t_isCompound = isCompound\<rparr>, bytes)))"

definition checkInteger :: "byte list \<Rightarrow> asn1_error option" where
  "checkInteger bytes =
     (if length bytes = 0 then Some EmptyInteger
      else if length bytes = 1 then None
      else if (bytes ! 0 = 0 \<and> bytes ! 1 AND 0x80 = 0)
              \<or> (bytes ! 0 = 0xff \<and> bytes ! 1 AND 0x80 = 0x80)
           then Some NotMinimallyEncoded
      else None)"

definition parseBigInt :: "byte list \<Rightarrow> asn1_error + int" where
  "parseBigInt bytes =
     (case checkInteger bytes of
        Some e \<Rightarrow> Inl e
      | None \<Rightarrow>
          if length bytes > 0 \<and> bytes ! 0 AND 0x80 = 0x80 then
            let notBytes = map (\<lambda>b. NOT b) bytes;
                ret = SetBytes notBytes;
                ret = ret + 1;
                ret = - ret
            in Inr ret
          else Inr (SetBytes bytes))"

text \<open>\<^verbatim>\<open>parseField\<close> for a field of type \<^verbatim>\<open>*big.Int\<close>: a universal, primitive INTEGER
  whose content lies within the bytes.\<close>

definition parseField_bigInt :: "byte list \<Rightarrow> asn1_error + (int \<times> byte list)" where
  "parseField_bigInt bytes =
     (if length bytes = 0 then Inl SequenceTruncated
      else (case parseTagAndLength bytes of
              Inl e \<Rightarrow> Inl e
            | Inr (t, bytes) \<Rightarrow>
                if t_class t \<noteq> 0 \<or> t_tag t \<noteq> 2 \<or> t_isCompound t then Inl TagsDontMatch
                else if t_length t > length bytes then Inl DataTruncated
                else (case parseBigInt (take (t_length t) bytes) of
                        Inl e \<Rightarrow> Inl e
                      | Inr v \<Rightarrow> Inr (v, drop (t_length t) bytes))))"

text \<open>\<^verbatim>\<open>asn1.Unmarshal\<close> into a \<^verbatim>\<open>signatureECDSA\<close>: a universal, constructed SEQUENCE
  whose content starts with the two fields; bytes after them inside the SEQUENCE are
  allowed, and the bytes after the SEQUENCE are returned.\<close>

definition Unmarshal :: "byte list \<Rightarrow> signatureECDSA \<Rightarrow> asn1_error + (byte list \<times> signatureECDSA)" where
  "Unmarshal b val =
     (if length b = 0 then Inl SequenceTruncated
      else (case parseTagAndLength b of
              Inl e \<Rightarrow> Inl e
            | Inr (t, bytes) \<Rightarrow>
                if t_class t \<noteq> 0 \<or> t_tag t \<noteq> 16 \<or> \<not> t_isCompound t then Inl TagsDontMatch
                else if t_length t > length bytes then Inl DataTruncated
                else
                  let innerBytes = take (t_length t) bytes;
                      rest = drop (t_length t) bytes
                  in (case parseField_bigInt innerBytes of
                        Inl e \<Rightarrow> Inl e
                      | Inr (r, innerBytes) \<Rightarrow>
                          (case parseField_bigInt innerBytes of
                             Inl e \<Rightarrow> Inl e
                           | Inr (s, innerBytes) \<Rightarrow>
                               Inr (rest, val\<lparr>R := Some r, S := Some s\<rparr>)))))"

definition UnmarshalECDSASignature :: "byte list \<Rightarrow> error + (int \<times> int)" where
  "UnmarshalECDSASignature raw =
     (let sig = \<lparr>R = None, S = None\<rparr>
      in (case Unmarshal raw sig of
            Inl err \<Rightarrow> Inl (ErrUnmarshal err)
          | Inr (rest, sig) \<Rightarrow>
              if R sig = None then Inl ErrRNil
              else if S sig = None then Inl ErrSNil
              else if sgn (the (R sig)) \<noteq> 1 then Inl ErrRNotPositive
              else if sgn (the (S sig)) \<noteq> 1 then Inl ErrSNotPositive
              else Inr (the (R sig), the (S sig))))"

section \<open>Facts about bytes\<close>

lemma paddedAppend_loop_eq:
  "paddedAppend_loop i n dst = dst @ replicate (nat (n - i)) 0"
proof (induction i n dst rule: paddedAppend_loop.induct)
  case (1 i n dst)
  show ?case
  proof (cases "i < n")
    case True
    then have "nat (n - i) = Suc (nat (n - (i + 1)))" by simp
    with True "1" show ?thesis
      by (subst paddedAppend_loop.simps) (simp add: replicate_append_same)
  next
    case False
    then show ?thesis by (subst paddedAppend_loop.simps) simp
  qed
qed

lemma paddedAppend_eq:
  "paddedAppend sz dst src = dst @ replicate (sz - length src) 0 @ src"
proof -
  have "nat (int sz - int (length src)) = sz - length src" by simp
  then show ?thesis by (simp add: paddedAppend_def paddedAppend_loop_eq)
qed

lemma length_nat_bytes: "n < 256 ^ k \<Longrightarrow> length (nat_bytes n) \<le> k"
proof (induction n arbitrary: k rule: nat_bytes.induct)
  case (1 n)
  show ?case
  proof (cases "n = 0")
    case True
    then show ?thesis by (subst nat_bytes.simps) simp
  next
    case False
    with "1.prems" obtain k' where k: "k = Suc k'" by (cases k) auto
    with "1.prems" have "n div 256 < 256 ^ k'"
      by (simp add: less_mult_imp_div_less mult.commute)
    with "1.IH" False have "length (nat_bytes (n div 256)) \<le> k'" by simp
    with False k show ?thesis by (subst nat_bytes.simps) simp
  qed
qed

lemma nat_bytes_0: "nat_bytes 0 = []"
  by (subst nat_bytes.simps) simp

lemma SetBytes_append: "SetBytes (xs @ ys) = SetBytes xs * 256 ^ length ys + SetBytes ys"
proof (induction ys rule: rev_induct)
  case Nil
  then show ?case by (simp add: SetBytes_def)
next
  case (snoc y ys)
  have "SetBytes (xs @ ys @ [y]) = SetBytes (xs @ ys) * 256 + uint y"
    by (simp add: SetBytes_def)
  also have "\<dots> = (SetBytes xs * 256 ^ length ys + SetBytes ys) * 256 + uint y"
    by (simp add: snoc.IH)
  also have "\<dots> = SetBytes xs * 256 ^ length (ys @ [y]) + SetBytes (ys @ [y])"
    by (simp add: SetBytes_def algebra_simps)
  finally show ?case .
qed

lemma SetBytes_replicate_0: "SetBytes (replicate k 0) = 0"
  by (induction k) (simp_all add: SetBytes_def)

lemma SetBytes_nat_bytes: "SetBytes (nat_bytes n) = int n"
proof (induction n rule: nat_bytes.induct)
  case (1 n)
  show ?case
  proof (cases "n = 0")
    case True
    then show ?thesis by (simp add: nat_bytes_0 SetBytes_def)
  next
    case False
    have u: "uint (of_nat (n mod 256) :: byte) = int (n mod 256)"
      by (simp add: unsigned_of_nat take_bit_eq_mod zmod_int)
    have "SetBytes (nat_bytes n) = SetBytes (nat_bytes (n div 256) @ [of_nat (n mod 256)])"
      using False by (subst nat_bytes.simps) simp
    also have "\<dots> = int (n div 256) * 256 + int (n mod 256)"
      using False "1.IH" u by (simp add: SetBytes_append) (simp add: SetBytes_def)
    also have "\<dots> = int (n div 256 * 256 + n mod 256)"
      by (simp only: of_nat_add of_nat_mult of_nat_numeral)
    also have "\<dots> = int n"
      by (simp only: div_mult_mod_eq)
    finally show ?thesis .
  qed
qed

lemma SetBytes_Bytes: "0 \<le> x \<Longrightarrow> SetBytes (Bytes x) = x"
  by (simp add: Bytes_def SetBytes_nat_bytes)

lemma length_Bytes: "0 \<le> x \<Longrightarrow> x < 256 ^ k \<Longrightarrow> length (Bytes x) \<le> k"
proof -
  assume a: "0 \<le> x" "x < 256 ^ k"
  then have "nat \<bar>x\<bar> < 256 ^ k"
    by (simp add: nat_less_iff)
  then show ?thesis unfolding Bytes_def by (rule length_nat_bytes)
qed

lemma N_lt: "N < 256 ^ 32"
  by (simp add: N_def)

lemma N_odd: "odd N"
  by (simp add: N_def)

section \<open>Facts about public keys\<close>

lemma P_pos: "0 < P" by (simp add: P_def)
lemma P_lt: "P < 256 ^ 32" by (simp add: P_def)

lemma SerializePublicKeyCompressed_eq:
  "SerializePublicKeyCompressed p =
     (of_nat (Bit (Y p) 0) OR 2) # take 32 (Bytes (X p)) @ replicate (32 - length (Bytes (X p))) 0"
proof -
  have bl: "drop_bit 3 (BitSize + 7) = (32::nat)"
    by (simp add: BitSize_def drop_bit_eq_div)
  have r: "replicate (1 + 32) (0::byte) = 0 # replicate 32 0"
    by (simp only: plus_1_eq_Suc replicate_Suc)
  show ?thesis
    unfolding SerializePublicKeyCompressed_def Let_def bl r copy_bytes_def
    by simp
qed

lemma SerializePublicKey_eq:
  "SerializePublicKey p =
     4 # replicate (32 - length (Bytes (X p))) 0 @ Bytes (X p)
       @ replicate (32 - length (Bytes (Y p))) 0 @ Bytes (Y p)"
  by (simp add: SerializePublicKey_def paddedAppend_eq)

lemma uncompressed_roundtrip:
  assumes "IsOnCurve (X q) (Y q)"
  shows "parsePubKey (SerializePublicKey q) = Returns (Inr \<lparr>X = X q, Y = Y q\<rparr>)"
proof -
  from assms have x: "0 \<le> X q" "X q < P" and y: "0 \<le> Y q" "Y q < P"
    by (simp_all add: IsOnCurve_def)
  have lx: "length (Bytes (X q)) \<le> 32" using x P_lt by (intro length_Bytes) simp_all
  have ly: "length (Bytes (Y q)) \<le> 32" using y P_lt by (intro length_Bytes) simp_all
  let ?px = "replicate (32 - length (Bytes (X q))) 0 @ Bytes (X q)"
  let ?py = "replicate (32 - length (Bytes (Y q))) 0 @ Bytes (Y q)"
  have len_px: "length ?px = 32" using lx by simp
  have len_py: "length ?py = 32" using ly by simp
  have s: "SerializePublicKey q = 4 # ?px @ ?py" by (simp add: SerializePublicKey_eq)
  have t: "take 32 (drop 1 (SerializePublicKey q)) = ?px"
    unfolding s using len_px by simp
  have d: "drop 33 (SerializePublicKey q) = ?py"
    unfolding s using len_px by simp
  have vx: "SetBytes ?px = X q"
    using x by (simp add: SetBytes_append SetBytes_replicate_0 SetBytes_Bytes)
  have vy: "SetBytes ?py = Y q"
    using y by (simp add: SetBytes_append SetBytes_replicate_0 SetBytes_Bytes)
  have l: "length (SerializePublicKey q) = 65"
    unfolding s using len_px len_py by simp
  show ?thesis
    unfolding parsePubKey_def t d vx vy l using assms x y by simp
qed


lemma Q5_on_curve: "IsOnCurve (X Q5) (Y Q5)"
  by (simp add: Q5_def IsOnCurve_def P_def B_def)

lemma Q1_on_curve: "IsOnCurve (X Q1) (Y Q1)"
  by (simp add: Q1_def IsOnCurve_def P_def B_def)

lemma Bytes_5: "Bytes 5 = [5]"
  by (simp add: Bytes_def nat_bytes.simps)

lemma Bytes_X_Q1: "Bytes (X Q1) = [255, 255, 255, 255, 1]"
  by (simp add: Q1_def Bytes_def nat_bytes.simps)

section \<open>Facts about the signature codec\<close>

lemma unat_of_nat_byte: "n < 256 \<Longrightarrow> unat (of_nat n :: byte) = n"
  by (simp add: unsigned_of_nat take_bit_eq_mod)

lemma and7f: "unat ((b::byte) AND 0x7f) = unat b mod 128"
proof -
  have m: "(0x7f::byte) = mask 7" by (simp add: mask_eq_exp_minus_1)
  have "unat (take_bit 7 b) = take_bit 7 (unat b)" by (rule unsigned_take_bit_eq)
  then show ?thesis by (simp add: m take_bit_eq_mask [symmetric] take_bit_eq_mod)
qed

lemma bit7: "bit (b::byte) 7 = (128 \<le> unat b)"
proof -
  have lt: "unat b < 256" using unsigned_less [of b] by simp
  have "bit b 7 = bit (unat b) 7" by (simp add: bit_unsigned_iff)
  also have "\<dots> = odd (unat b div 128)" by (simp add: bit_iff_odd)
  also have "\<dots> = (128 \<le> unat b)"
  proof (cases "128 \<le> unat b")
    case True
    with lt have "unat b div 128 = 1" by simp
    with True show ?thesis by simp
  next
    case False
    then have "unat b div 128 = 0" by simp
    with False show ?thesis by simp
  qed
  finally show ?thesis .
qed

lemma and80: "((b::byte) AND 0x80 = 0) = (unat b < 128)"
proof -
  have "(b AND 2 ^ 7 = 0) = (\<not> bit b 7)" by (rule and_exp_eq_0_iff_not_bit)
  then show ?thesis by (simp add: bit7 not_le)
qed

lemma and_exp_eq_exp:
  assumes "n < 8"
  shows "((w :: byte) AND 2 ^ n = 2 ^ n) = bit w n"
proof
  assume "w AND 2 ^ n = 2 ^ n"
  then have "bit (w AND 2 ^ n) n = bit (2 ^ n :: byte) n" by simp
  with assms show "bit w n" by (simp add: bit_and_iff bit_exp_iff)
next
  assume "bit w n"
  then show "w AND 2 ^ n = 2 ^ n"
    by (intro bit_word_eqI) (auto simp add: bit_and_iff bit_exp_iff)
qed

lemma and80': "((b::byte) AND 0x80 = 0x80) = (128 \<le> unat b)"
proof -
  have "(b AND 2 ^ 7 = 2 ^ 7) = bit b 7"
    by (rule and_exp_eq_exp) simp
  then show ?thesis by (simp add: bit7)
qed

lemma or80_and80: "((0x80 OR x :: byte) AND 0x80 = 0) = False"
proof -
  have "(0x80 :: byte) \<le> 0x80 OR x" by (rule le_word_or2)
  then have "128 \<le> unat (0x80 OR x)" by (simp add: word_le_nat_alt)
  then show ?thesis by (simp add: and80)
qed

lemma or80_and7f: "k < 128 \<Longrightarrow> unat ((0x80 OR of_nat k :: byte) AND 0x7f) = k"
proof -
  assume k: "k < 128"
  have "(0x80 OR of_nat k :: byte) AND 0x7f = (0x80 AND 0x7f) OR (of_nat k AND 0x7f)"
    by (rule bit.conj_disj_distrib2)
  also have "\<dots> = of_nat k AND 0x7f" by simp
  finally have "unat ((0x80 OR of_nat k :: byte) AND 0x7f) = unat (of_nat k :: byte) mod 128"
    by (simp add: and7f)
  with k show ?thesis by (simp add: unat_of_nat_byte)
qed

lemma nat_bytes_pos: "0 < n \<Longrightarrow> nat_bytes n = nat_bytes (n div 256) @ [of_nat (n mod 256)]"
  by (subst nat_bytes.simps) simp

lemma nat_bytes_nonempty: "0 < n \<Longrightarrow> nat_bytes n \<noteq> []"
  by (simp add: nat_bytes_pos)

lemma hd_nat_bytes: "0 < n \<Longrightarrow> hd (nat_bytes n) \<noteq> 0"
proof (induction n rule: less_induct)
  case (less n)
  show ?case
  proof (cases "n div 256 = 0")
    case True
    then have lt: "n < 256" by (simp add: div_eq_0_iff)
    then have "unat (of_nat n :: byte) = n" by (rule unat_of_nat_byte)
    with less.prems have "(of_nat n :: byte) \<noteq> 0" by (metis less_not_refl unat_0)
    with True lt less.prems show ?thesis by (simp add: nat_bytes_pos nat_bytes_0)
  next
    case False
    then have p: "0 < n div 256" by simp
    have "n div 256 < n" using less.prems by simp
    from less.IH [OF this p] nat_bytes_nonempty [OF p] less.prems
    show ?thesis by (simp add: nat_bytes_pos [of n])
  qed
qed

lemma parseLength_loop_last:
  "parseLength_loop (Suc k) acc bs =
     (case parseLength_loop k acc bs of
        Inl e \<Rightarrow> Inl e
      | Inr (v, bs') \<Rightarrow>
          (case bs' of
             [] \<Rightarrow> Inl TruncatedTagOrLength
           | b # bs'' \<Rightarrow>
               if v \<ge> 2 ^ 23 then Inl LengthTooLarge
               else if v * 256 + unat b = 0 then Inl SuperfluousLeadingZeros
               else Inr (v * 256 + unat b, bs'')))"
proof (induction k arbitrary: acc bs)
  case 0
  then show ?case by (cases bs) (simp_all add: Let_def push_bit_eq_mult)
next
  case (Suc k)
  show ?case
  proof (cases bs)
    case Nil
    then show ?thesis by simp
  next
    case (Cons b bs')
    have "parseLength_loop (Suc (Suc k)) acc (b # bs') =
        (if acc \<ge> 2 ^ 23 then Inl LengthTooLarge
         else if push_bit 8 acc + unat b = 0 then Inl SuperfluousLeadingZeros
         else parseLength_loop (Suc k) (push_bit 8 acc + unat b) bs')"
      by (simp only: parseLength_loop.simps Let_def)
    moreover have "parseLength_loop (Suc k) acc (b # bs') =
        (if acc \<ge> 2 ^ 23 then Inl LengthTooLarge
         else if push_bit 8 acc + unat b = 0 then Inl SuperfluousLeadingZeros
         else parseLength_loop k (push_bit 8 acc + unat b) bs')"
      by (simp only: parseLength_loop.simps Let_def)
    ultimately show ?thesis
      unfolding Cons by (simp only: Suc.IH) simp
  qed
qed

lemma parseLength_loop_nat_bytes:
  "0 < n \<Longrightarrow>
   parseLength_loop (length (nat_bytes n)) 0 (nat_bytes n @ rest) =
     (if n < 2 ^ 31 then Inr (n, rest) else Inl LengthTooLarge)"
proof (induction n arbitrary: rest rule: less_induct)
  case (less n)
  let ?b = "of_nat (n mod 256) :: byte"
  have ub: "unat ?b = n mod 256" by (simp add: unat_of_nat_byte)
  have nb: "nat_bytes n = nat_bytes (n div 256) @ [?b]" using less.prems by (rule nat_bytes_pos)
  have rec: "n div 256 * 256 + n mod 256 = n" by simp
  show ?case
  proof (cases "n div 256 = 0")
    case True
    then have lt: "n < 256" by (simp add: div_eq_0_iff)
    with less.prems True show ?thesis
      by (simp add: nb nat_bytes_0 unat_of_nat_byte [OF lt] push_bit_eq_mult)
  next
    case False
    then have p: "0 < n div 256" by simp
    have d: "n div 256 < n" using less.prems by simp
    note ih = less.IH [OF d p, of "?b # rest"]
    have l: "length (nat_bytes n) = Suc (length (nat_bytes (n div 256)))" by (simp add: nb)
    have a: "nat_bytes n @ rest = nat_bytes (n div 256) @ ?b # rest" by (simp add: nb)
    show ?thesis
    proof (cases "n div 256 < 2 ^ 31")
      case big: False
      then have "\<not> n < 2 ^ 31" by simp
      with big ih show ?thesis unfolding l a parseLength_loop_last by simp
    next
      case small: True
      show ?thesis
      proof (cases "n div 256 < 2 ^ 23")
        case True
        then have "n < 2 ^ 31" using rec by simp
        moreover have "n div 256 * 256 + n mod 256 \<noteq> 0" using less.prems by simp
        ultimately show ?thesis
          unfolding l a parseLength_loop_last using small ih True p
          by (simp add: ub push_bit_eq_mult)
      next
        case False
        then have "\<not> n < 2 ^ 31" by simp
        with False small ih show ?thesis unfolding l a parseLength_loop_last by simp
      qed
    qed
  qed
qed

lemma parseLength_encoded:
  assumes "n < 2 ^ 31"
  shows "parseLength
           ((if 128 \<le> n then (0x80 OR of_nat (length (nat_bytes n))) # nat_bytes n
             else [of_nat n]) @ rest) = Inr (n, rest)"
proof (cases "128 \<le> n")
  case False
  then have lt: "n < 256" and u: "unat (of_nat n :: byte) = n"
    by (simp_all add: unat_of_nat_byte)
  from False show ?thesis
    by (simp add: parseLength_def and80 and7f u)
next
  case True
  let ?k = "length (nat_bytes n)"
  have pos: "0 < n" using True by simp
  have "n < 256 ^ 4" using assms by simp
  then have k4: "?k \<le> 4" by (rule length_nat_bytes)
  have k0: "?k \<noteq> 0" using nat_bytes_nonempty [OF pos] by simp
  have nb: "unat ((0x80 OR of_nat ?k :: byte) AND 0x7f) = ?k"
    using k4 by (intro or80_and7f) simp
  have loop: "parseLength_loop ?k 0 (nat_bytes n @ rest) = Inr (n, rest)"
    using parseLength_loop_nat_bytes [OF pos, of rest] assms by simp
  from True nat_bytes_nonempty [OF pos] show ?thesis
    by (simp add: parseLength_def or80_and80 nb k0 loop Let_def)
qed

lemma appendTagAndLength_INTEGER:
  "appendTagAndLength [] \<lparr>t_class = 0, t_tag = 2, t_length = n, t_isCompound = False\<rparr> =
     2 # (if 128 \<le> n then (0x80 OR of_nat (length (nat_bytes n))) # nat_bytes n
          else [of_nat n])"
  by (simp add: appendTagAndLength_def)

lemma appendTagAndLength_SEQUENCE:
  "appendTagAndLength [] \<lparr>t_class = 0, t_tag = 16, t_length = n, t_isCompound = True\<rparr> =
     0x30 # (if 128 \<le> n then (0x80 OR of_nat (length (nat_bytes n))) # nat_bytes n
             else [of_nat n])"
  by (simp add: appendTagAndLength_def)

lemma parseTagAndLength_INTEGER:
  assumes "n < 2 ^ 31"
  shows "parseTagAndLength
           (appendTagAndLength [] \<lparr>t_class = 0, t_tag = 2, t_length = n, t_isCompound = False\<rparr>
            @ rest) =
         Inr (\<lparr>t_class = 0, t_tag = 2, t_length = n, t_isCompound = False\<rparr>, rest)"
  unfolding appendTagAndLength_INTEGER parseTagAndLength_def
  using parseLength_encoded [OF assms, of rest] by simp

lemma parseTagAndLength_SEQUENCE:
  assumes "n < 2 ^ 31"
  shows "parseTagAndLength
           (appendTagAndLength [] \<lparr>t_class = 0, t_tag = 16, t_length = n, t_isCompound = True\<rparr>
            @ rest) =
         Inr (\<lparr>t_class = 0, t_tag = 16, t_length = n, t_isCompound = True\<rparr>, rest)"
  unfolding appendTagAndLength_SEQUENCE parseTagAndLength_def
  using parseLength_encoded [OF assms, of rest] by simp

lemma Bytes_pos: "0 < v \<Longrightarrow> Bytes v \<noteq> [] \<and> hd (Bytes v) \<noteq> 0"
  by (simp add: Bytes_def nat_bytes_nonempty hd_nat_bytes)

lemma SetBytes_Cons_0: "SetBytes (0 # bs) = SetBytes bs"
  by (simp add: SetBytes_def)

lemma makeBigInt_pos:
  "0 < v \<Longrightarrow>
   makeBigInt (Some v) = Inr (if hd (Bytes v) AND 0x80 \<noteq> 0 then 0 # Bytes v else Bytes v)"
  using Bytes_pos [of v] by (simp add: makeBigInt_def Let_def)

lemma parseBigInt_pos:
  assumes "0 < v"
  shows "parseBigInt (if hd (Bytes v) AND 0x80 \<noteq> 0 then 0 # Bytes v else Bytes v) = Inr v"
proof -
  from Bytes_pos [OF assms] obtain h t where b: "Bytes v = h # t" and h: "h \<noteq> 0"
    by (cases "Bytes v") auto
  have v: "SetBytes (h # t) = v" using SetBytes_Bytes [of v] assms b by simp
  show ?thesis
  proof (cases "h AND 0x80 = 0")
    case True
    have c: "checkInteger (h # t) = None"
    proof (cases t)
      case Nil
      then show ?thesis by (simp add: checkInteger_def)
    next
      case (Cons a t')
      have "h \<noteq> 0xff" using True by auto
      with h Cons show ?thesis by (simp add: checkInteger_def)
    qed
    from True c v show ?thesis by (simp add: parseBigInt_def b)
  next
    case False
    have c: "checkInteger (0 # h # t) = None"
      using False by (simp add: checkInteger_def)
    from False c v show ?thesis by (simp add: parseBigInt_def b SetBytes_Cons_0)
  qed
qed

lemma parseField_bigInt_pos:
  assumes "0 < v" and "marshalBigInt (Some v) = Inr enc" and "length enc < 2 ^ 31"
  shows "parseField_bigInt (enc @ rest) = Inr (v, rest)"
proof -
  let ?body = "if hd (Bytes v) AND 0x80 \<noteq> 0 then 0 # Bytes v else Bytes v"
  let ?t = "\<lparr>t_class = 0, t_tag = 2, t_length = length ?body, t_isCompound = False\<rparr>"
  have enc: "enc = appendTagAndLength [] ?t @ ?body"
    using assms(2) by (simp add: marshalBigInt_def makeBigInt_pos [OF assms(1)])
  then have "length ?body \<le> length enc" by simp
  with assms(3) have lt: "length ?body < 2 ^ 31" by simp
  have ne: "enc @ rest \<noteq> []" using enc by (simp add: appendTagAndLength_INTEGER)
  have p: "parseTagAndLength (enc @ rest) = Inr (?t, ?body @ rest)"
    using parseTagAndLength_INTEGER [OF lt, of "?body @ rest"] by (simp add: enc)
  show ?thesis
    using ne by (simp add: parseField_bigInt_def p parseBigInt_pos [OF assms(1)])
qed

lemma marshalBigInt_Some: "\<exists>enc. marshalBigInt (Some v) = Inr enc"
  by (simp add: marshalBigInt_def makeBigInt_def Let_def)

lemma Marshal_roundtrip:
  assumes "0 < r" and "0 < s"
    and "MarshalECDSASignature (Some r) (Some s) = Inr raw" and "length raw < 2 ^ 31"
  shows "Unmarshal (raw @ extra) val = Inr (extra, val\<lparr>R := Some r, S := Some s\<rparr>)"
proof -
  obtain er where er: "marshalBigInt (Some r) = Inr er" using marshalBigInt_Some by blast
  obtain es where es: "marshalBigInt (Some s) = Inr es" using marshalBigInt_Some by blast
  let ?t = "\<lparr>t_class = 0, t_tag = 16, t_length = length (er @ es), t_isCompound = True\<rparr>"
  have raw: "raw = appendTagAndLength [] ?t @ er @ es"
    using assms(3) by (simp add: MarshalECDSASignature_def Marshal_def er es)
  then have "length (er @ es) \<le> length raw" by simp
  with assms(4) have lt: "length (er @ es) < 2 ^ 31" by simp
  then have ler: "length er < 2 ^ 31" and les: "length es < 2 ^ 31" by simp_all
  have ne: "raw @ extra \<noteq> []" using raw by (simp add: appendTagAndLength_SEQUENCE)
  have p: "parseTagAndLength (raw @ extra) = Inr (?t, (er @ es) @ extra)"
    using parseTagAndLength_SEQUENCE [OF lt, of "(er @ es) @ extra"] by (simp add: raw)
  have f1: "parseField_bigInt (er @ es) = Inr (r, es)"
    using assms(1) er ler by (rule parseField_bigInt_pos)
  have f2: "parseField_bigInt es = Inr (s, [])"
    using parseField_bigInt_pos [OF assms(2) es les, of "[]"] by simp
  show ?thesis
    using ne by (simp add: Unmarshal_def p f1 f2)
qed

lemma parseLength_loop_append:
  "parseLength_loop k acc bs = Inr (v, rest) \<Longrightarrow>
   parseLength_loop k acc (bs @ e) = Inr (v, rest @ e)"
  by (induction k acc bs rule: parseLength_loop.induct) (auto simp add: Let_def split: if_splits)

lemma parseLength_append:
  "parseLength bs = Inr (v, rest) \<Longrightarrow> parseLength (bs @ e) = Inr (v, rest @ e)"
  by (cases bs)
    (auto simp add: parseLength_def Let_def parseLength_loop_append
      split: if_splits sum.splits prod.splits)

lemma parseTagAndLength_append:
  "parseTagAndLength bs = Inr (t, rest) \<Longrightarrow> parseTagAndLength (bs @ e) = Inr (t, rest @ e)"
  by (cases bs)
    (auto simp add: parseTagAndLength_def Let_def parseLength_append
      split: if_splits sum.splits prod.splits)

lemma Unmarshal_append:
  assumes "Unmarshal raw val = Inr (rest, val')"
  shows "Unmarshal (raw @ e) val = Inr (rest @ e, val')"
proof -
  from assms obtain t bytes where p: "parseTagAndLength raw = Inr (t, bytes)"
    by (auto simp add: Unmarshal_def split: if_splits sum.splits)
  from assms p have len: "t_length t \<le> length bytes"
    by (auto simp add: Unmarshal_def split: if_splits)
  from assms have ne: "raw \<noteq> []" by (auto simp add: Unmarshal_def split: if_splits)
  have p': "parseTagAndLength (raw @ e) = Inr (t, bytes @ e)"
    using p by (rule parseTagAndLength_append)
  from assms show ?thesis
    using ne len by (auto simp add: Unmarshal_def p p' Let_def split: if_splits sum.splits)
qed

lemma UnmarshalECDSASignature_append:
  assumes "UnmarshalECDSASignature enc = Inr (r, s)"
  shows "UnmarshalECDSASignature (enc @ extra) = Inr (r, s)"
proof -
  from assms obtain rest val where
    u: "Unmarshal enc \<lparr>R = None, S = None\<rparr> = Inr (rest, val)"
    by (auto simp add: UnmarshalECDSASignature_def split: sum.splits)
  have "Unmarshal (enc @ extra) \<lparr>R = None, S = None\<rparr> = Inr (rest @ extra, val)"
    using u by (rule Unmarshal_append)
  with assms u show ?thesis by (simp add: UnmarshalECDSASignature_def)
qed

lemma UnmarshalECDSASignature_Marshal:
  assumes "0 < r" and "0 < s"
    and "MarshalECDSASignature (Some r) (Some s) = Inr raw" and "length raw < 2 ^ 31"
  shows "UnmarshalECDSASignature (raw @ extra) = Inr (r, s)"
  using assms(1,2) by (simp add: UnmarshalECDSASignature_def Marshal_roundtrip [OF assms])

lemma MarshalECDSASignature_Some: "\<exists>raw. MarshalECDSASignature (Some r) (Some s) = Inr raw"
proof -
  obtain er where er: "marshalBigInt (Some r) = Inr er" using marshalBigInt_Some by blast
  obtain es where es: "marshalBigInt (Some s) = Inr es" using marshalBigInt_Some by blast
  show ?thesis by (simp add: MarshalECDSASignature_def Marshal_def er es)
qed

lemma Bytes_255: "Bytes 255 = [255]"
  by (simp add: Bytes_def nat_bytes.simps)

lemma Bytes_1: "Bytes 1 = [1]"
  by (simp add: Bytes_def nat_bytes.simps)

lemma Marshal_255_1:
  "MarshalECDSASignature (Some 255) (Some 1) = Inr [0x30, 7, 2, 2, 0, 255, 2, 1, 1]"
  by (simp add: MarshalECDSASignature_def Marshal_def marshalBigInt_def makeBigInt_def
      appendTagAndLength_def Bytes_255 Bytes_1)

lemma length_appendTagAndLength:
  "length (appendTagAndLength [] t) \<le> 2 + length (nat_bytes (t_length t))"
  by (simp add: appendTagAndLength_def Let_def)

lemma marshalBigInt_length:
  assumes "0 < v" and "v < 256 ^ 32" and "marshalBigInt (Some v) = Inr enc"
  shows "length enc \<le> 36"
proof -
  let ?body = "if hd (Bytes v) AND 0x80 \<noteq> 0 then 0 # Bytes v else Bytes v"
  let ?t = "\<lparr>t_class = 0, t_tag = 2, t_length = length ?body, t_isCompound = False\<rparr>"
  have enc: "enc = appendTagAndLength [] ?t @ ?body"
    using assms(3) by (simp add: marshalBigInt_def makeBigInt_pos [OF assms(1)])
  have "length (Bytes v) \<le> 32" using assms(1,2) by (intro length_Bytes) simp_all
  then have lb: "length ?body \<le> 33" by simp
  then have "length ?body < 256 ^ 1" by simp
  then have "length (nat_bytes (length ?body)) \<le> 1" by (rule length_nat_bytes)
  with length_appendTagAndLength [of ?t] have "length (appendTagAndLength [] ?t) \<le> 3" by simp
  with lb show ?thesis unfolding enc by simp
qed

lemma Marshal_length:
  assumes "0 < r" and "r < 256 ^ 32" and "0 < s" and "s < 256 ^ 32"
    and "MarshalECDSASignature (Some r) (Some s) = Inr raw"
  shows "length raw \<le> 75"
proof -
  obtain er where er: "marshalBigInt (Some r) = Inr er" using marshalBigInt_Some by blast
  obtain es where es: "marshalBigInt (Some s) = Inr es" using marshalBigInt_Some by blast
  let ?t = "\<lparr>t_class = 0, t_tag = 16, t_length = length (er @ es), t_isCompound = True\<rparr>"
  have raw: "raw = appendTagAndLength [] ?t @ er @ es"
    using assms(5) by (simp add: MarshalECDSASignature_def Marshal_def er es)
  have ler: "length er \<le> 36" using assms(1,2) er by (rule marshalBigInt_length)
  have les: "length es \<le> 36" using assms(3,4) es by (rule marshalBigInt_length)
  then have "length (er @ es) < 256 ^ 1" using ler by simp
  then have "length (nat_bytes (length (er @ es))) \<le> 1" by (rule length_nat_bytes)
  with length_appendTagAndLength [of ?t] have "length (appendTagAndLength [] ?t) \<le> 3" by simp
  with ler les show ?thesis unfolding raw by simp
qed

lemma Unmarshal_R_zero:
  "Unmarshal [0x30, 6, 2, 1, 0, 2, 1, 1] \<lparr>R = None, S = None\<rparr>
   = Inr ([], \<lparr>R = Some 0, S = Some 1\<rparr>)"
  by (simp add: Unmarshal_def parseTagAndLength_def parseLength_def parseField_bigInt_def
      parseBigInt_def checkInteger_def SetBytes_def)

lemma Unmarshal_S_negative:
  "Unmarshal [0x30, 6, 2, 1, 1, 2, 1, 0xff] \<lparr>R = None, S = None\<rparr>
   = Inr ([], \<lparr>R = Some 1, S = Some (- 1)\<rparr>)"
  by (simp add: Unmarshal_def parseTagAndLength_def parseLength_def parseField_bigInt_def
      parseBigInt_def checkInteger_def SetBytes_def)

lemma Unmarshal_one_field:
  "Unmarshal [0x30, 3, 2, 1, 1] \<lparr>R = None, S = None\<rparr> = Inl SequenceTruncated"
  by (simp add: Unmarshal_def parseTagAndLength_def parseLength_def parseField_bigInt_def
      parseBigInt_def checkInteger_def SetBytes_def)

section \<open>Claims\<close>

text \<open>
  C8. For every scalar \<open>s\<close> with \<open>1 \<le> s \<le> N - 1\<close>, exactly one of \<open>s\<close> and \<open>N - s\<close>
  satisfies \<open>IsLowS\<close>, and \<open>IsLowS s\<close> holds iff \<open>s\<close> is at most \<open>N\<close> shifted right by
  one bit, the floor of \<open>N / 2\<close>.
\<close>

theorem C8_low_s_exactly_one:
  assumes "1 \<le> s" and "s \<le> N - 1"
  shows "(IsLowS s \<longleftrightarrow> s \<le> N div 2) \<and> (IsLowS s \<longleftrightarrow> \<not> IsLowS (N - s))"
proof -
  have "(s \<le> N div 2) \<longleftrightarrow> \<not> (N - s \<le> N div 2)"
    using N_odd assms by presburger
  then show ?thesis by (simp add: IsLowS_def drop_bit_eq_div not_less)
qed

theorem C8_low_s_exactly_one_witness:
  "(1::int) \<le> 1 \<and> 1 \<le> N - 1 \<and> IsLowS 1 \<and> \<not> IsLowS (N - 1)"
proof -
  have a: "(1::int) \<le> 1" by simp
  have b: "1 \<le> N - 1" by (simp add: N_def)
  have c: "(1::int) \<le> N div 2" using b by presburger
  note t = C8_low_s_exactly_one [OF a b]
  from t c have l: "IsLowS 1" by blast
  with t have "\<not> IsLowS (N - 1)" by blast
  with a b l show ?thesis by blast
qed

text \<open>
  C9. For every in-range scalar \<open>d\<close> (\<open>0 \<le> d < N\<close>) the serialized private key has
  exactly 32 bytes: the big-endian bytes of \<open>d\<close> after as many zero bytes as are needed;
  the zero scalar gives 32 zero bytes.
\<close>

theorem C9_private_key_fixed_width:
  assumes "0 \<le> D k" and "D k < N"
  shows "length (SerializePrivateKey k) = 32
    \<and> SerializePrivateKey k = replicate (32 - length (Bytes (D k))) 0 @ Bytes (D k)
    \<and> SetBytes (SerializePrivateKey k) = D k
    \<and> (D k = 0 \<longrightarrow> SerializePrivateKey k = replicate 32 0)"
proof -
  have "D k < 256 ^ 32" using assms(2) N_lt by simp
  with assms(1) have len: "length (Bytes (D k)) \<le> 32" by (rule length_Bytes)
  have eq: "SerializePrivateKey k = replicate (32 - length (Bytes (D k))) 0 @ Bytes (D k)"
    by (simp add: SerializePrivateKey_def privateKeyECDSALength_def paddedAppend_eq)
  have z: "D k = 0 \<longrightarrow> SerializePrivateKey k = replicate 32 0"
    by (simp add: eq Bytes_def nat_bytes_0)
  have v: "SetBytes (SerializePrivateKey k) = D k"
    using assms(1) by (simp add: eq SetBytes_append SetBytes_replicate_0 SetBytes_Bytes)
  from len eq z v show ?thesis by simp
qed

theorem C9_private_key_fixed_width_witness:
  "SerializePrivateKey \<lparr>X = 0, Y = 0, D = 258\<rparr> = replicate 30 0 @ [1, 2]
   \<and> SerializePrivateKey \<lparr>X = 0, Y = 0, D = 0\<rparr> = replicate 32 (0::byte)"
proof -
  have a: "0 \<le> D \<lparr>X = 0, Y = 0, D = 258\<rparr>" by simp
  have b: "D \<lparr>X = 0, Y = 0, D = 258\<rparr> < N" by (simp add: N_def)
  have a0: "0 \<le> D \<lparr>X = 0, Y = 0, D = 0\<rparr>" by simp
  have b0: "D \<lparr>X = 0, Y = 0, D = 0\<rparr> < N" by (simp add: N_def)
  have by258: "Bytes 258 = [1, 2]"
    by (simp add: Bytes_def nat_bytes.simps)
  have "SerializePrivateKey \<lparr>X = 0, Y = 0, D = 258\<rparr> = replicate 30 0 @ [1, 2]"
    using C9_private_key_fixed_width [OF a b] by (simp add: by258)
  moreover have "SerializePrivateKey \<lparr>X = 0, Y = 0, D = 0\<rparr> = replicate 32 (0::byte)"
    using C9_private_key_fixed_width [OF a0 b0] by (simp add: Bytes_def nat_bytes_0)
  ultimately show ?thesis by blast
qed

text \<open>
  C2. The compressed form of a valid point should be the tag byte followed by \<open>X\<close> padded
  with zero bytes on the left to 32 bytes. \<^verbatim>\<open>SerializePublicKeyCompressed\<close> copies the bytes
  of \<open>X\<close> to the front of the field instead: for the point \<open>Q5\<close>, whose \<open>X\<close> is 5, the
  output is the tag, the byte 5 and 31 zero bytes, not the tag, 31 zero bytes and the byte 5.
\<close>

theorem C2_compressed_pads_on_the_right:
  "IsOnCurve (X Q5) (Y Q5)
   \<and> SerializePublicKeyCompressed Q5 = 2 # 5 # replicate 31 0
   \<and> SerializePublicKeyCompressed Q5 \<noteq> 2 # paddedAppend 32 [] (Bytes (X Q5))"
proof -
  have b: "Bytes (X Q5) = [5]" by (simp add: Q5_def Bytes_5)
  have t: "(of_nat (Bit (Y Q5) 0) OR 2 :: byte) = 2"
    by (simp add: Q5_def Bit_def bit_0)
  have s: "SerializePublicKeyCompressed Q5 = 2 # 5 # replicate 31 0"
    by (simp add: SerializePublicKeyCompressed_eq b t)
  have n: "(31::nat) = Suc 30" by simp
  have "paddedAppend 32 [] (Bytes (X Q5)) = replicate 31 0 @ [5]"
    by (simp add: paddedAppend_eq b)
  then have pa: "paddedAppend 32 [] (Bytes (X Q5)) = 0 # replicate 30 0 @ [5]"
    by (simp only: n replicate_Suc append_Cons)
  have "SerializePublicKeyCompressed Q5 \<noteq> 2 # paddedAppend 32 [] (Bytes (X Q5))"
    unfolding s pa by simp
  with Q5_on_curve s show ?thesis by blast
qed

text \<open>
  C3. \<^verbatim>\<open>parsePubKey\<close> should return a point or an error value on every input. On the
  one-byte input \<open>[4]\<close>, and on an input of 32 bytes, it returns nothing: the slice
  expression is out of range and the run-time panics.
\<close>

theorem C3_short_input_panics:
  "parsePubKey [4] = Panics \<and> parsePubKey (replicate 32 4) = Panics"
  by (simp add: parsePubKey_def)

text \<open>
  C4, as stated, fails: on the empty input \<^verbatim>\<open>parsePubKeyCompressed\<close> returns its length
  error, whose kind is not \<open>EmptyInput\<close>.
\<close>

theorem C4_empty_compressed_is_length_error:
  "parsePubKeyCompressed [] = Returns (Inl ErrByteLen) \<and> kind_of ErrByteLen \<noteq> EmptyInput"
  by (simp add: parsePubKeyCompressed_def BitSize_def)

text \<open>
  C4, amended. On the empty input \<^verbatim>\<open>parsePubKey\<close> fails with the error of kind
  \<open>EmptyInput\<close>, and \<^verbatim>\<open>parsePubKeyCompressed\<close> fails with the length error, of kind
  \<open>InvalidEncoding\<close>, that it returns on every input whose length is not 33.
\<close>

theorem C4_empty_input:
  "parsePubKey [] = Returns (Inl ErrPubKeyEmpty) \<and> kind_of ErrPubKeyEmpty = EmptyInput
   \<and> parsePubKeyCompressed [] = Returns (Inl ErrByteLen) \<and> kind_of ErrByteLen = InvalidEncoding
   \<and> parsePubKeyCompressed [] = parsePubKeyCompressed (replicate 32 0)
   \<and> (\<forall>data. length data \<noteq> 33 \<longrightarrow> parsePubKeyCompressed data = Returns (Inl ErrByteLen))"
  by (simp add: parsePubKey_def parsePubKeyCompressed_def BitSize_def)

theorem C4_empty_input_witness:
  "length (replicate 32 (0::byte)) \<noteq> 33
   \<and> parsePubKeyCompressed (replicate 32 0) = Returns (Inl ErrByteLen)"
proof -
  have l: "length (replicate 32 (0::byte)) \<noteq> 33" by simp
  with C4_empty_input have "parsePubKeyCompressed (replicate 32 0) = Returns (Inl ErrByteLen)"
    by blast
  with l show ?thesis by blast
qed

text \<open>
  C1. Parsing the serialized form of a valid point should give the point back. For the
  uncompressed form it does; for the compressed form of \<open>Q1\<close>, whose \<open>X\<close> has five
  significant bytes, it does not: the bytes of \<open>X\<close> are followed, not preceded, by the 27
  zero bytes, the value read back is \<open>X * 256 ^ 27\<close>, which is not below \<open>P\<close>, and
  \<^verbatim>\<open>parsePubKeyCompressed\<close> returns an error.
\<close>

theorem C1_compressed_roundtrip_fails:
  "IsOnCurve (X Q1) (Y Q1)
   \<and> parsePubKey (SerializePublicKey Q1) = Returns (Inr Q1)
   \<and> SerializePublicKeyCompressed Q1 = 3 # [255, 255, 255, 255, 1] @ replicate 27 0
   \<and> parsePubKeyCompressed (SerializePublicKeyCompressed Q1) = Returns (Inl ErrXData)"
proof -
  have t: "(of_nat (Bit (Y Q1) 0) OR 2 :: byte) = 3"
    by (simp add: Q1_def Bit_def bit_0)
  have s: "SerializePublicKeyCompressed Q1 = 3 # [255, 255, 255, 255, 1] @ replicate 27 0"
    by (simp add: SerializePublicKeyCompressed_eq Bytes_X_Q1 t)
  have a: "SetBytes [255, 255, 255, 255, 1] = 1099511627521"
    by (simp add: SetBytes_def)
  have v: "SetBytes ([255, 255, 255, 255, 1] @ replicate 27 0) = 1099511627521 * 256 ^ 27"
    by (simp only: SetBytes_append SetBytes_replicate_0 a length_replicate add_0_right)
  have ge: "P \<le> 1099511627521 * 256 ^ 27"
    by (simp add: P_def)
  have l: "length (3 # [255, 255, 255, 255, 1 :: byte] @ replicate 27 0) = 33" by simp
  have d: "drop 1 (3 # [255, 255, 255, 255, 1 :: byte] @ replicate 27 0)
      = [255, 255, 255, 255, 1] @ replicate 27 0" by simp
  have h: "(3 # [255, 255, 255, 255, 1 :: byte] @ replicate 27 0) ! 0 = 3" by simp
  have p: "parsePubKeyCompressed (SerializePublicKeyCompressed Q1) = Returns (Inl ErrXData)"
    unfolding s parsePubKeyCompressed_def Let_def l d h v using ge
    by (simp add: BitSize_def)
  have "parsePubKey (SerializePublicKey Q1) = Returns (Inr \<lparr>X = X Q1, Y = Y Q1\<rparr>)"
    using Q1_on_curve by (rule uncompressed_roundtrip)
  then have u: "parsePubKey (SerializePublicKey Q1) = Returns (Inr Q1)" by simp
  from Q1_on_curve u s p show ?thesis by blast
qed

text \<open>
  C6. For every pair of strictly positive scalars \<open>r\<close>, \<open>s\<close> (scalars are below the curve
  order \<open>N\<close>) the encoding succeeds and decoding it returns the same pair.
\<close>

theorem C6_signature_roundtrip:
  assumes "0 < r" and "r < N" and "0 < s" and "s < N"
  shows "\<exists>raw. MarshalECDSASignature (Some r) (Some s) = Inr raw
           \<and> UnmarshalECDSASignature raw = Inr (r, s)"
proof -
  obtain raw where raw: "MarshalECDSASignature (Some r) (Some s) = Inr raw"
    using MarshalECDSASignature_Some by blast
  have "length raw \<le> 75"
    using assms N_lt by (intro Marshal_length [OF _ _ _ _ raw]) simp_all
  then have "length raw < 2 ^ 31" by simp
  from UnmarshalECDSASignature_Marshal [OF assms(1) assms(3) raw this, of "[]"]
  have "UnmarshalECDSASignature raw = Inr (r, s)" by simp
  with raw show ?thesis by blast
qed

theorem C6_signature_roundtrip_witness:
  "MarshalECDSASignature (Some 255) (Some 1) = Inr [0x30, 7, 2, 2, 0, 255, 2, 1, 1]
   \<and> UnmarshalECDSASignature [0x30, 7, 2, 2, 0, 255, 2, 1, 1] = Inr (255, 1)"
proof -
  have r: "(0::int) < 255" "255 < N" and s: "(0::int) < 1" "1 < N"
    by (simp_all add: N_def)
  from C6_signature_roundtrip [OF r s] Marshal_255_1
  have "UnmarshalECDSASignature [0x30, 7, 2, 2, 0, 255, 2, 1, 1] = Inr (255, 1)" by simp
  with Marshal_255_1 show ?thesis by blast
qed

text \<open>
  C7. Decoding never returns a signature with a component that is not positive, every
  failure of decoding is of the kind \<open>DecodeError\<close>, and an input in which a component is
  missing (the ASN.1 decoder fails), \<^verbatim>\<open>nil\<close>, zero or negative is such a failure.
\<close>

theorem C7_decode_rejects_non_positive:
  "(\<forall>r s. UnmarshalECDSASignature raw = Inr (r, s) \<longrightarrow> 0 < r \<and> 0 < s)
   \<and> (\<forall>e. UnmarshalECDSASignature raw = Inl e \<longrightarrow> kind_of e = DecodeError)
   \<and> (\<forall>e. Unmarshal raw \<lparr>R = None, S = None\<rparr> = Inl e \<longrightarrow>
          UnmarshalECDSASignature raw = Inl (ErrUnmarshal e))
   \<and> (\<forall>rest sig. Unmarshal raw \<lparr>R = None, S = None\<rparr> = Inr (rest, sig)
          \<and> (R sig = None \<or> S sig = None \<or> the (R sig) \<le> 0 \<or> the (S sig) \<le> 0) \<longrightarrow>
          (\<exists>e. UnmarshalECDSASignature raw = Inl e \<and> kind_of e = DecodeError))"
proof -
  have a: "\<forall>r s. UnmarshalECDSASignature raw = Inr (r, s) \<longrightarrow> 0 < r \<and> 0 < s"
    by (auto simp add: UnmarshalECDSASignature_def sgn_if split: sum.splits if_splits)
  have b: "\<forall>e. UnmarshalECDSASignature raw = Inl e \<longrightarrow> kind_of e = DecodeError"
    by (auto simp add: UnmarshalECDSASignature_def split: sum.splits if_splits)
  have c: "\<forall>e. Unmarshal raw \<lparr>R = None, S = None\<rparr> = Inl e \<longrightarrow>
          UnmarshalECDSASignature raw = Inl (ErrUnmarshal e)"
    by (simp add: UnmarshalECDSASignature_def)
  have d: "\<forall>rest sig. Unmarshal raw \<lparr>R = None, S = None\<rparr> = Inr (rest, sig)
          \<and> (R sig = None \<or> S sig = None \<or> the (R sig) \<le> 0 \<or> the (S sig) \<le> 0) \<longrightarrow>
          (\<exists>e. UnmarshalECDSASignature raw = Inl e \<and> kind_of e = DecodeError)"
    by (auto simp add: UnmarshalECDSASignature_def sgn_if)
  from a b c d show ?thesis by blast
qed

theorem C7_decode_rejects_non_positive_witness:
  "(\<exists>e. UnmarshalECDSASignature [0x30, 6, 2, 1, 0, 2, 1, 1] = Inl e \<and> kind_of e = DecodeError)
   \<and> (\<exists>e. UnmarshalECDSASignature [0x30, 6, 2, 1, 1, 2, 1, 0xff] = Inl e \<and> kind_of e = DecodeError)
   \<and> UnmarshalECDSASignature [0x30, 3, 2, 1, 1] = Inl (ErrUnmarshal SequenceTruncated)"
proof -
  have "\<exists>e. UnmarshalECDSASignature [0x30, 6, 2, 1, 0, 2, 1, 1] = Inl e \<and> kind_of e = DecodeError"
    using C7_decode_rejects_non_positive [of "[0x30, 6, 2, 1, 0, 2, 1, 1]"] Unmarshal_R_zero
    by simp
  moreover
  have "\<exists>e. UnmarshalECDSASignature [0x30, 6, 2, 1, 1, 2, 1, 0xff] = Inl e \<and> kind_of e = DecodeError"
    using C7_decode_rejects_non_positive [of "[0x30, 6, 2, 1, 1, 2, 1, 0xff]"] Unmarshal_S_negative
    by simp
  moreover
  have "UnmarshalECDSASignature [0x30, 3, 2, 1, 1] = Inl (ErrUnmarshal SequenceTruncated)"
    using C7_decode_rejects_non_positive [of "[0x30, 3, 2, 1, 1]"] Unmarshal_one_field
    by simp
  ultimately show ?thesis by blast
qed

text \<open>
  C10. Bytes after the encoded SEQUENCE are ignored: if decoding \<open>enc\<close> returns \<open>(r, s)\<close>,
  so does decoding \<open>enc\<close> followed by any bytes; in particular when \<open>enc\<close> is the encoding,
  shorter than \<open>2 ^ 31\<close> bytes, of two positive scalars.
\<close>

theorem C10_trailing_bytes_ignored:
  "(UnmarshalECDSASignature enc = Inr (r, s) \<longrightarrow>
      UnmarshalECDSASignature (enc @ extra) = Inr (r, s))
   \<and> (0 < r \<and> 0 < s \<and> MarshalECDSASignature (Some r) (Some s) = Inr enc
        \<and> length enc < 2 ^ 31 \<longrightarrow>
      UnmarshalECDSASignature (enc @ extra) = Inr (r, s))"
  using UnmarshalECDSASignature_append [of enc r s extra]
    UnmarshalECDSASignature_Marshal [of r s enc extra]
  by blast

theorem C10_trailing_bytes_ignored_witness:
  "UnmarshalECDSASignature [0x30, 7, 2, 2, 0, 255, 2, 1, 1] = Inr (255, 1)
   \<and> UnmarshalECDSASignature ([0x30, 7, 2, 2, 0, 255, 2, 1, 1] @ [0xde, 0xad]) = Inr (255, 1)"
proof -
  have u: "UnmarshalECDSASignature [0x30, 7, 2, 2, 0, 255, 2, 1, 1] = Inr (255, 1)"
    by (simp add: UnmarshalECDSASignature_def Unmarshal_def parseTagAndLength_def
        parseLength_def parseField_bigInt_def parseBigInt_def checkInteger_def SetBytes_def)
  have m: "(0::int) < 255 \<and> (0::int) < 1
      \<and> MarshalECDSASignature (Some 255) (Some 1) = Inr [0x30, 7, 2, 2, 0, 255, 2, 1, 1]
      \<and> length [0x30, 7, 2, 2, 0, 255, 2, 1, 1 :: byte] < 2 ^ 31"
    by (simp add: Marshal_255_1)
  note t = C10_trailing_bytes_ignored [of "[0x30, 7, 2, 2, 0, 255, 2, 1, 1]" 255 1 "[0xde, 0xad]"]
  from t u have "UnmarshalECDSASignature ([0x30, 7, 2, 2, 0, 255, 2, 1, 1] @ [0xde, 0xad])
      = Inr (255, 1)" by blast
  moreover from t m have "UnmarshalECDSASignature ([0x30, 7, 2, 2, 0, 255, 2, 1, 1] @ [0xde, 0xad])
      = Inr (255, 1)" by blast
  ultimately show ?thesis using u by blast
qed

end
